theory Spec2Isabelle
  imports Main "HOL-Library.Word" "HOL-Library.Sublist"
begin

section \<open>The OSS bucket adapter (pkg/objstore/oss/oss.go)\<close>

text \<open>
  The adapter talks to three kinds of external code: the OSS client library
  (\<^verbatim>\<open>ListObjects\<close>, \<^verbatim>\<open>GetObject\<close>, \<^verbatim>\<open>UploadFile\<close>), the operating system
  (\<^verbatim>\<open>os.Create\<close>, \<^verbatim>\<open>os.Remove\<close>, the buffered writer) and the caller's own code
  (the visitor passed to \<^verbatim>\<open>Iter\<close>, the reader passed to \<^verbatim>\<open>Upload\<close>). Each such call
  is a parameter of the model: a function that takes the state of the outside world and
  returns its answer together with the new state. Every model function also returns
  the list of external calls it made, in order, so that "no backend call was made" and
  "the visitor was called on exactly these names" are statements about that list.
\<close>

subsection \<open>Go values\<close>

type_synonym int64 = "64 word"
type_synonym byte = "8 word"

text \<open>
  A Go \<^verbatim>\<open>error\<close> value. \<^verbatim>\<open>io.EOF\<close> is a sentinel compared by identity;
  \<^verbatim>\<open>errors.New\<close>/\<^verbatim>\<open>errors.Errorf\<close> build an error from its text; \<^verbatim>\<open>errors.Wrap\<close>
  keeps the cause and prefixes a message. An error produced outside the adapter (by
  the backend, the transport, the operating system, the reader or the visitor) carries
  the condition that caused it and its text; the adapter only ever sees the text.
\<close>

datatype cause =
    ObjectNotFound | Transport | Permission | MalformedRequest | OtherCause

datatype error =
    io_EOF
  | errors_New string
  | errors_Wrap error string
  | External cause string

fun Error :: "error \<Rightarrow> string" where
  "Error io_EOF = ''EOF''"
| "Error (errors_New s) = s"
| "Error (errors_Wrap err message) = message @ '': '' @ Error err"
| "Error (External c s) = s"

text \<open>How a Go call ends: it returns, or it panics with the value given to \<^verbatim>\<open>panic\<close>.\<close>

datatype 'a outcome = Returned 'a | Panicked error

text \<open>\<^verbatim>\<open>strings.Contains(s, substr)\<close> and \<^verbatim>\<open>strings.TrimSuffix(s, suffix)\<close>.\<close>

fun Contains :: "string \<Rightarrow> string \<Rightarrow> bool" where
  "Contains [] substr = (substr = [])"
| "Contains (c # s) substr = (prefix substr (c # s) \<or> Contains s substr)"

definition TrimSuffix :: "string \<Rightarrow> string \<Rightarrow> string" where
  "TrimSuffix s suf = (if suffix suf s then take (length s - length suf) s else s)"

text \<open>
  The options of the OSS client library that the adapter builds (\<^verbatim>\<open>oss.MaxKeys\<close>,
  \<^verbatim>\<open>oss.Marker\<close>, \<^verbatim>\<open>oss.Prefix\<close>, \<^verbatim>\<open>oss.Delimiter\<close>, \<^verbatim>\<open>oss.Range\<close>), and the part of
  \<^verbatim>\<open>oss.ListObjectsResult\<close> that the adapter reads.
\<close>

datatype oss_Option =
    oss_MaxKeys int
  | oss_Marker string
  | oss_Prefix string
  | oss_Delimiter string
  | oss_Range int64 int64

record ObjectProperties =
  Key :: string

record ListObjectsResult =
  Objects :: "ObjectProperties list"
  CommonPrefixes :: "string list"
  NextMarker :: string
  IsTruncated :: bool

text \<open>The external calls a run makes, in the order it makes them.\<close>

datatype call =
    ListObjectsCall "oss_Option list"
  | VisitorCall string
  | GetObjectCall string "oss_Option list"
  | OsCreateCall string
  | ReaderReadCall nat
  | WriterWriteCall "byte list"
  | WriterFlushCall
  | UploadFileCall string string int
  | OsRemoveCall string
  | FileCloseCall

subsection \<open>Configuration\<close>

definition dirDelim :: string where
  "dirDelim = ''/''"

record Config =
  Bucket :: string
  Endpoint :: string
  AccessID :: string
  AccessKey :: string

text \<open>\<^verbatim>\<open>Config.validate\<close>: \<open>None\<close> is Go's \<^verbatim>\<open>nil\<close> error.\<close>

definition validate :: "Config \<Rightarrow> error option" where
  "validate conf =
     (if Bucket conf = '''' \<or> Endpoint conf = '''' \<or> AccessID conf = '''' \<or> AccessKey conf = ''''
      then Some (errors_New ''insufficient oss configuration information'')
      else None)"

subsection \<open>Reading objects\<close>

text \<open>
  \<^verbatim>\<open>b.bkt.GetObject(name, options...)\<close> is the parameter \<open>getObject\<close>; \<open>'r\<close> is the
  reader it returns. \<^verbatim>\<open>off+length-1\<close> is 64-bit arithmetic.
\<close>

type_synonym ('b, 'r) get_object =
  "string \<Rightarrow> oss_Option list \<Rightarrow> 'b \<Rightarrow> (error + 'r) \<times> 'b"

definition getRange ::
  "('b, 'r) get_object \<Rightarrow> string \<Rightarrow> int64 \<Rightarrow> int64 \<Rightarrow> 'b \<Rightarrow> (error + 'r) \<times> 'b \<times> call list" where
  "getRange getObject name off len bk =
     (if length name = 0 then (Inl (errors_New ''given object name should not empty''), bk, [])
      else
        let options = [oss_Range off (off + len - 1)];
            options = (if len \<noteq> - 1 then [oss_Range off (off + len - 1)] else options)
        in case getObject name options bk of
             (Inl err, bk') \<Rightarrow> (Inl err, bk', [GetObjectCall name options])
           | (Inr body, bk') \<Rightarrow> (Inr body, bk', [GetObjectCall name options]))"

definition Get ::
  "('b, 'r) get_object \<Rightarrow> string \<Rightarrow> 'b \<Rightarrow> (error + 'r) \<times> 'b \<times> call list" where
  "Get getObject name bk = getRange getObject name 0 (- 1) bk"

definition GetRange ::
  "('b, 'r) get_object \<Rightarrow> string \<Rightarrow> int64 \<Rightarrow> int64 \<Rightarrow> 'b \<Rightarrow> (error + 'r) \<times> 'b \<times> call list" where
  "GetRange getObject name off len bk = getRange getObject name off len bk"

subsection \<open>Classifying errors\<close>

text \<open>
  \<^verbatim>\<open>IsObjNotFoundErr\<close> calls \<^verbatim>\<open>err.Error()\<close>; on a \<^verbatim>\<open>nil\<close> error (\<open>None\<close>) that
  call panics with a nil dereference.
\<close>

definition IsObjNotFoundErr :: "error option \<Rightarrow> bool outcome" where
  "IsObjNotFoundErr err =
     (case err of
        None \<Rightarrow> Panicked (errors_New ''runtime error: invalid memory address or nil pointer dereference'')
      | Some e \<Rightarrow> Returned (Contains (Error e) ''StatusCode=404''))"

subsection \<open>Listing\<close>

text \<open>
  \<^verbatim>\<open>b.bkt.ListObjects(options...)\<close> is the parameter \<open>listObjects\<close>, acting on the
  backend's state \<open>'b\<close>; the visitor \<open>f\<close> is the caller's closure, acting on its own
  state \<open>'s\<close>.
\<close>

type_synonym 'b list_objects =
  "oss_Option list \<Rightarrow> 'b \<Rightarrow> (error + ListObjectsResult) \<times> 'b"

type_synonym 's visitor =
  "string \<Rightarrow> 's \<Rightarrow> error option \<times> 's"

text \<open>The first statement of \<^verbatim>\<open>Iter\<close>, and the options of each \<^verbatim>\<open>ListObjects\<close> call.\<close>

definition normalize_dir :: "string \<Rightarrow> string" where
  "normalize_dir dir = (if dir \<noteq> '''' then TrimSuffix dir dirDelim @ dirDelim else dir)"

definition list_options :: "string \<Rightarrow> string \<Rightarrow> oss_Option list" where
  "list_options dir marker =
     [oss_MaxKeys 1000, oss_Marker marker, oss_Prefix dir, oss_Delimiter ''/'']"

text \<open>The names of one page: the keys of the objects, then the common prefixes.\<close>

definition listNames :: "ListObjectsResult \<Rightarrow> string list" where
  "listNames lor = map Key (Objects lor) @ CommonPrefixes lor"

text \<open>
  The loop over \<^verbatim>\<open>listNames\<close>: the result is the visitor's error if it returned one,
  the visitor's state, and the names it was called on.
\<close>

fun visit_names :: "'s visitor \<Rightarrow> string list \<Rightarrow> 's \<Rightarrow> error option \<times> 's \<times> string list" where
  "visit_names f [] s = (None, s, [])"
| "visit_names f (name # rest) s =
     (case f name s of
        (Some err, s') \<Rightarrow> (Some err, s', [name])
      | (None, s') \<Rightarrow>
          (case visit_names f rest s' of (r, s'', visited) \<Rightarrow> (r, s'', name # visited)))"

text \<open>
  The page loop. It ends only when the backend fails, the visitor fails or a page is not
  truncated, so it is a partial function: \<open>None\<close> is a run that never returns.
\<close>

partial_function (option) iter_loop ::
  "'b list_objects \<Rightarrow> 's visitor \<Rightarrow> string \<Rightarrow> string \<Rightarrow> 'b \<Rightarrow> 's \<Rightarrow> call list
     \<Rightarrow> (error option \<times> 'b \<times> 's \<times> call list) option" where
  "iter_loop listObjects f dir marker bk s calls =
     (case listObjects (list_options dir marker) bk of
        (Inl err, bk') \<Rightarrow>
          Some (Some err, bk', s, calls @ [ListObjectsCall (list_options dir marker)])
      | (Inr lor, bk') \<Rightarrow>
          (case visit_names f (listNames lor) s of
             (Some err, s', visited) \<Rightarrow>
               Some (Some err, bk', s',
                 calls @ ListObjectsCall (list_options dir marker) # map VisitorCall visited)
           | (None, s', visited) \<Rightarrow>
               if \<not> IsTruncated lor
               then Some (None, bk', s',
                 calls @ ListObjectsCall (list_options dir marker) # map VisitorCall visited)
               else iter_loop listObjects f dir (NextMarker lor) bk' s'
                 (calls @ ListObjectsCall (list_options dir marker) # map VisitorCall visited)))"

definition Iter ::
  "'b list_objects \<Rightarrow> 's visitor \<Rightarrow> string \<Rightarrow> 'b \<Rightarrow> 's
     \<Rightarrow> (error option \<times> 'b \<times> 's \<times> call list) option" where
  "Iter listObjects f dir bk s = iter_loop listObjects f (normalize_dir dir) '''' bk s []"

subsection \<open>Uploading\<close>

text \<open>
  The external calls of \<^verbatim>\<open>Upload\<close>, all acting on one world state \<open>'w\<close>. A read
  returns the bytes it put into the buffer (their number is Go's \<^verbatim>\<open>n\<close>) and an error.
\<close>

record 'w upload_sys =
  os_Create :: "string \<Rightarrow> 'w \<Rightarrow> error option \<times> 'w"
  file_Close :: "'w \<Rightarrow> error option \<times> 'w"
  reader_Read :: "nat \<Rightarrow> 'w \<Rightarrow> (byte list \<times> error option) \<times> 'w"
  writer_Write :: "byte list \<Rightarrow> 'w \<Rightarrow> error option \<times> 'w"
  writer_Flush :: "'w \<Rightarrow> error option \<times> 'w"
  bkt_UploadFile :: "string \<Rightarrow> string \<Rightarrow> int \<Rightarrow> 'w \<Rightarrow> error option \<times> 'w"
  os_Remove :: "string \<Rightarrow> 'w \<Rightarrow> error option \<times> 'w"

text \<open>
  The copy loop. Its result is the error it panics with, or \<open>None\<close> when it leaves the
  loop by \<^verbatim>\<open>break\<close>. A reader that never returns zero bytes keeps it running.
\<close>

partial_function (option) copy_loop ::
  "'w upload_sys \<Rightarrow> 'w \<Rightarrow> call list \<Rightarrow> (error option \<times> 'w \<times> call list) option" where
  "copy_loop sys w calls =
     (case reader_Read sys (1024 * 1024 * 1024) w of
        ((buf, err), w1) \<Rightarrow>
          if err \<noteq> None \<and> err \<noteq> Some io_EOF
          then Some (err, w1, calls @ [ReaderReadCall (1024 * 1024 * 1024)])
          else if length buf = 0
          then Some (None, w1, calls @ [ReaderReadCall (1024 * 1024 * 1024)])
          else
            (case writer_Write sys buf w1 of
               (Some werr, w2) \<Rightarrow>
                 Some (Some werr, w2,
                   calls @ [ReaderReadCall (1024 * 1024 * 1024), WriterWriteCall buf])
             | (None, w2) \<Rightarrow>
                 copy_loop sys w2
                   (calls @ [ReaderReadCall (1024 * 1024 * 1024), WriterWriteCall buf])))"

text \<open>Everything after the \<^verbatim>\<open>defer\<close> statement, up to the return or the panic.\<close>

definition upload_body ::
  "'w upload_sys \<Rightarrow> string \<Rightarrow> string \<Rightarrow> 'w \<Rightarrow> call list
     \<Rightarrow> (error option outcome \<times> 'w \<times> call list) option" where
  "upload_body sys name tmpFilename w calls =
     (case copy_loop sys w calls of
        None \<Rightarrow> None
      | Some (Some err, w1, calls1) \<Rightarrow> Some (Panicked err, w1, calls1)
      | Some (None, w1, calls1) \<Rightarrow>
          (case writer_Flush sys w1 of
             (Some err, w2) \<Rightarrow> Some (Panicked err, w2, calls1 @ [WriterFlushCall])
           | (None, w2) \<Rightarrow>
               (case bkt_UploadFile sys name tmpFilename (1024 * 1024 * 1024 * 2) w2 of
                  (Some err, w3) \<Rightarrow>
                    Some (Returned (Some (errors_Wrap err ''upload oss object'')), w3,
                      calls1 @ [WriterFlushCall,
                        UploadFileCall name tmpFilename (1024 * 1024 * 1024 * 2)])
                | (None, w3) \<Rightarrow>
                    (case os_Remove sys tmpFilename w3 of
                       (Some err, w4) \<Rightarrow>
                         Some (Returned (Some (errors_Wrap err ''deleted tmp uploadFile'')), w4,
                           calls1 @ [WriterFlushCall,
                             UploadFileCall name tmpFilename (1024 * 1024 * 1024 * 2),
                             OsRemoveCall tmpFilename])
                     | (None, w4) \<Rightarrow>
                         Some (Returned None, w4,
                           calls1 @ [WriterFlushCall,
                             UploadFileCall name tmpFilename (1024 * 1024 * 1024 * 2),
                             OsRemoveCall tmpFilename])))))"

text \<open>
  \<^verbatim>\<open>Upload\<close>. The deferred function runs when the body returns and when it panics; if
  \<^verbatim>\<open>fo.Close()\<close> fails there, its panic is the one the call ends with.
\<close>

definition Upload ::
  "'w upload_sys \<Rightarrow> string \<Rightarrow> 'w \<Rightarrow> (error option outcome \<times> 'w \<times> call list) option" where
  "Upload sys name w =
     (let tmpFilename = ''/tmp/thanos.tmp'' in
      case os_Create sys tmpFilename w of
        (Some err, w1) \<Rightarrow> Some (Panicked err, w1, [OsCreateCall tmpFilename])
      | (None, w1) \<Rightarrow>
          (case upload_body sys name tmpFilename w1 [OsCreateCall tmpFilename] of
             None \<Rightarrow> None
           | Some (out, w2, calls) \<Rightarrow>
               (case file_Close sys w2 of
                  (Some err, w3) \<Rightarrow> Some (Panicked err, w3, calls @ [FileCloseCall])
                | (None, w3) \<Rightarrow> Some (out, w3, calls @ [FileCloseCall]))))"

subsection \<open>Describing runs\<close>

text \<open>
  \<open>truncated_pages listObjects dir marker bk pages marker' bk'\<close>: asked page after page
  from \<open>marker\<close> in state \<open>bk\<close>, each time with the cursor of the page before, the
  backend answers with \<open>pages\<close>, every one of them marked as truncated, and is then in
  state \<open>bk'\<close> with the cursor \<open>marker'\<close> to ask next.
\<close>

inductive truncated_pages ::
  "'b list_objects \<Rightarrow> string \<Rightarrow> string \<Rightarrow> 'b \<Rightarrow> ListObjectsResult list \<Rightarrow> string \<Rightarrow> 'b \<Rightarrow> bool"
  for listObjects :: "'b list_objects" and dir :: string where
  no_page: "truncated_pages listObjects dir marker bk [] marker bk"
| next_page:
    "listObjects (list_options dir marker) bk = (Inr lor, bk1) \<Longrightarrow> IsTruncated lor \<Longrightarrow>
     truncated_pages listObjects dir (NextMarker lor) bk1 pages marker' bk' \<Longrightarrow>
     truncated_pages listObjects dir marker bk (lor # pages) marker' bk'"

code_pred truncated_pages .

text \<open>
  The calls of a listing that goes through \<open>pages\<close> with a visitor that accepts every
  name: for each page the request with the current cursor, then one visitor call per
  name of the page.
\<close>

fun page_calls :: "string \<Rightarrow> string \<Rightarrow> ListObjectsResult list \<Rightarrow> call list" where
  "page_calls dir marker [] = []"
| "page_calls dir marker (lor # pages) =
     ListObjectsCall (list_options dir marker) # map VisitorCall (listNames lor)
       @ page_calls dir (NextMarker lor) pages"

text \<open>The names the visitor was called on, read off the calls of a run.\<close>

fun visited_names :: "call list \<Rightarrow> string list" where
  "visited_names [] = []"
| "visited_names (VisitorCall name # calls) = name # visited_names calls"
| "visited_names (c # calls) = visited_names calls"

text \<open>
  \<open>copied sys w chunks w'\<close>: from \<open>w\<close> the copy loop of \<^verbatim>\<open>Upload\<close> goes through one
  iteration per chunk (a read that yields the chunk without a real error, then a write
  that succeeds) and reaches \<open>w'\<close>.
\<close>

inductive copied :: "'w upload_sys \<Rightarrow> 'w \<Rightarrow> byte list list \<Rightarrow> 'w \<Rightarrow> bool"
  for sys :: "'w upload_sys" where
  copied_none: "copied sys w [] w"
| copied_chunk:
    "reader_Read sys (1024 * 1024 * 1024) w = ((buf, err), w1) \<Longrightarrow>
     err = None \<or> err = Some io_EOF \<Longrightarrow> buf \<noteq> [] \<Longrightarrow>
     writer_Write sys buf w1 = (None, w2) \<Longrightarrow> copied sys w2 chunks w' \<Longrightarrow>
     copied sys w (buf # chunks) w'"

code_pred copied .

fun copy_calls :: "byte list list \<Rightarrow> call list" where
  "copy_calls [] = []"
| "copy_calls (buf # chunks) =
     ReaderReadCall (1024 * 1024 * 1024) # WriterWriteCall buf # copy_calls chunks"

subsection \<open>Example environments\<close>

text \<open>
  A backend that serves the directory \<^verbatim>\<open>a/\<close> in two pages and counts the requests it
  has answered; a visitor that records the names it is given; a visitor that fails on
  the third name it is given.
\<close>

definition page_one :: ListObjectsResult where
  "page_one = \<lparr>Objects = [\<lparr>Key = ''a/1''\<rparr>, \<lparr>Key = ''a/2''\<rparr>, \<lparr>Key = ''a/3''\<rparr>],
     CommonPrefixes = [''a/x/''],
     NextMarker = ''a/x/'', IsTruncated = True\<rparr>"

definition page_two :: ListObjectsResult where
  "page_two = \<lparr>Objects = [\<lparr>Key = ''a/y''\<rparr>], CommonPrefixes = [''a/z/''],
     NextMarker = '''', IsTruncated = False\<rparr>"

definition two_page_backend :: "nat list_objects" where
  "two_page_backend options n =
     (if options = list_options ''a/'' '''' then (Inr page_one, Suc n)
      else if options = list_options ''a/'' ''a/x/'' then (Inr page_two, Suc n)
      else (Inl (External MalformedRequest ''unexpected request''), n))"

text \<open>
  A backend that serves the root of the bucket (the empty prefix) in one page that is not
  truncated.
\<close>

definition root_page :: ListObjectsResult where
  "root_page = \<lparr>Objects = [\<lparr>Key = ''readme''\<rparr>], CommonPrefixes = [''a/''],
     NextMarker = '''', IsTruncated = False\<rparr>"

definition root_backend :: "nat list_objects" where
  "root_backend options n =
     (if options = list_options '''' '''' then (Inr root_page, Suc n)
      else (Inl (External MalformedRequest ''unexpected request''), n))"

definition recording_visitor :: "string list visitor" where
  "recording_visitor name seen = (None, seen @ [name])"

definition third_fails_visitor :: "string list visitor" where
  "third_fails_visitor name seen =
     (if length seen = 2 then (Some (errors_New ''stop here''), seen @ [name])
      else (None, seen @ [name]))"

text \<open>A backend whose state is the list of \<^verbatim>\<open>GetObject\<close> requests it has received.\<close>

definition logging_get_object :: "((string \<times> oss_Option list) list, string) get_object" where
  "logging_get_object name options received = (Inr ''body'', received @ [(name, options)])"

text \<open>
  A system for \<^verbatim>\<open>Upload\<close> whose state is the number of reads made so far: the reader
  returns the given results one after the other and then zero bytes with \<^verbatim>\<open>io.EOF\<close>;
  every other call returns the given result.
\<close>

definition scripted_sys ::
  "(byte list \<times> error option) list \<Rightarrow> error option \<Rightarrow> error option \<Rightarrow> error option
     \<Rightarrow> error option \<Rightarrow> error option \<Rightarrow> nat upload_sys" where
  "scripted_sys reads write_err flush_err upload_err remove_err close_err =
     \<lparr>os_Create = (\<lambda>path n. (None, n)),
      file_Close = (\<lambda>n. (close_err, n)),
      reader_Read = (\<lambda>size n. (if n < length reads then reads ! n else ([], Some io_EOF), Suc n)),
      writer_Write = (\<lambda>buf n. (write_err, n)),
      writer_Flush = (\<lambda>n. (flush_err, n)),
      bkt_UploadFile = (\<lambda>name path part_size n. (upload_err, n)),
      os_Remove = (\<lambda>path n. (remove_err, n))\<rparr>"

section \<open>Properties\<close>

subsection \<open>Strings\<close>

lemma Contains_iff: "Contains s sub \<longleftrightarrow> (\<exists>pre post. s = pre @ sub @ post)"
proof (induction s)
  case Nil
  then show ?case by auto
next
  case (Cons c s)
  show ?case
  proof
    assume "Contains (c # s) sub"
    then consider "prefix sub (c # s)" | "Contains s sub" by auto
    then show "\<exists>pre post. c # s = pre @ sub @ post"
    proof cases
      case 1
      then obtain post where "c # s = sub @ post" by (auto simp: prefix_def)
      then have "c # s = [] @ sub @ post" by simp
      then show ?thesis by blast
    next
      case 2
      with Cons.IH obtain pre post where "s = pre @ sub @ post" by blast
      then have "c # s = (c # pre) @ sub @ post" by simp
      then show ?thesis by blast
    qed
  next
    assume "\<exists>pre post. c # s = pre @ sub @ post"
    then obtain pre post where e: "c # s = pre @ sub @ post" by blast
    show "Contains (c # s) sub"
    proof (cases pre)
      case Nil
      with e have "prefix sub (c # s)" by (simp add: prefix_def)
      then show ?thesis by simp
    next
      case (Cons a pre')
      with e have "s = pre' @ sub @ post" by simp
      with Cons.IH have "Contains s sub" by blast
      then show ?thesis by simp
    qed
  qed
qed

lemma TrimSuffix_delim:
  "TrimSuffix dir ''/'' @ ''/'' = (if suffix ''/'' dir then dir else dir @ ''/'')"
proof (cases "suffix ''/'' dir")
  case True
  then obtain d where "dir = d @ ''/''" by (auto simp: suffix_def)
  then show ?thesis by (simp add: TrimSuffix_def)
next
  case False
  then show ?thesis by (simp add: TrimSuffix_def)
qed

lemma normalize_dir_eq:
  "normalize_dir dir = (if dir = '''' then '''' else if suffix ''/'' dir then dir else dir @ ''/'')"
  using TrimSuffix_delim [of dir] by (simp add: normalize_dir_def dirDelim_def)

lemma normalize_dir_a: "normalize_dir ''a'' = ''a/''"
  by (simp add: normalize_dir_eq suffix_to_prefix)

subsection \<open>The visitor loop\<close>

lemma visit_names_None: "visit_names f xs s = (None, s', v) \<Longrightarrow> v = xs"
  by (induction xs arbitrary: s v) (auto split: prod.splits option.splits)

lemma visit_names_append:
  "visit_names f xs s = (None, s1, v) \<Longrightarrow>
   visit_names f (xs @ ys) s =
     (case visit_names f ys s1 of (r, s2, v') \<Rightarrow> (r, s2, xs @ v'))"
  by (induction xs arbitrary: s v) (auto split: prod.splits option.splits)

lemma visit_names_append_None:
  assumes "visit_names f (xs @ ys) s = (None, s2, v)"
  shows "\<exists>s1. visit_names f xs s = (None, s1, xs) \<and> visit_names f ys s1 = (None, s2, ys)"
  using assms
proof (induction xs arbitrary: s v)
  case Nil
  then show ?case using visit_names_None [of f ys s s2 v] by simp
next
  case (Cons a xs)
  obtain r sa where fa: "f a s = (r, sa)" by (cases "f a s")
  obtain r' s' v' where rest: "visit_names f (xs @ ys) sa = (r', s', v')"
    by (cases "visit_names f (xs @ ys) sa")
  from Cons.prems fa rest have "r = None" and "r' = None" and "s' = s2"
    by (auto split: option.splits)
  with rest Cons.IH obtain s1 where
    "visit_names f xs sa = (None, s1, xs)" and "visit_names f ys s1 = (None, s2, ys)"
    by blast
  with fa \<open>r = None\<close> show ?case by simp
qed

lemma visit_names_fail:
  "visit_names f before s = (None, s1, v) \<Longrightarrow> f name s1 = (Some err, s2) \<Longrightarrow>
   visit_names f (before @ name # after) s = (Some err, s2, before @ [name])"
  by (simp add: visit_names_append)

lemma visited_names_append: "visited_names (xs @ ys) = visited_names xs @ visited_names ys"
  by (induction xs rule: visited_names.induct) auto

lemma visited_names_map: "visited_names (map VisitorCall ns) = ns"
  by (induction ns) auto

lemma visited_names_page_calls:
  "visited_names (page_calls dir m pages) = concat (map listNames pages)"
  by (induction pages arbitrary: m) (auto simp: visited_names_append visited_names_map)

subsection \<open>The page loop\<close>

lemma page_calls_append:
  "truncated_pages L dir m bk pages m' bk' \<Longrightarrow>
   page_calls dir m (pages @ rest) = page_calls dir m pages @ page_calls dir m' rest"
  by (induction rule: truncated_pages.induct) auto

text \<open>
  Through truncated pages whose names the visitor accepts, the loop goes on: it is where
  it would be had it started at the cursor after them.
\<close>

lemma iter_loop_skip:
  assumes "truncated_pages L dir m bk pages m' bk'"
    and "visit_names f (concat (map listNames pages)) s = (None, s', v)"
  shows "iter_loop L f dir m bk s calls = iter_loop L f dir m' bk' s' (calls @ page_calls dir m pages)"
  using assms
proof (induction arbitrary: s v calls rule: truncated_pages.induct)
  case (no_page marker bk)
  then show ?case by simp
next
  case (next_page marker bk lor bk1 pages marker' bk')
  from next_page.prems obtain s1 where
    v1: "visit_names f (listNames lor) s = (None, s1, listNames lor)" and
    v2: "visit_names f (concat (map listNames pages)) s1 = (None, s', concat (map listNames pages))"
    using visit_names_append_None [of f "listNames lor" "concat (map listNames pages)" s s' v]
    by auto
  have "iter_loop L f dir marker bk s calls =
        iter_loop L f dir (NextMarker lor) bk1 s1
          (calls @ ListObjectsCall (list_options dir marker) # map VisitorCall (listNames lor))"
    by (subst iter_loop.simps) (simp add: next_page.hyps v1)
  also have "\<dots> = iter_loop L f dir marker' bk' s'
      ((calls @ ListObjectsCall (list_options dir marker) # map VisitorCall (listNames lor))
        @ page_calls dir (NextMarker lor) pages)"
    by (rule next_page.IH [OF v2])
  finally show ?case by simp
qed

text \<open>Every request of a run that returns carries the prefix the loop was started with.\<close>

lemma iter_loop_requests:
  assumes "iter_loop listObjects f dir marker bk s calls = Some (r, bk', s', calls')"
  shows "\<exists>new. calls' = calls @ new
           \<and> (\<forall>options. ListObjectsCall options \<in> set new \<longrightarrow> oss_Prefix dir \<in> set options)"
proof -
  let ?P = "\<lambda>(L :: 'a list_objects) (f :: 'b visitor) dir (marker :: string) (bk :: 'a) (s :: 'b) calls
              (y :: error option \<times> 'a \<times> 'b \<times> call list).
     \<exists>new. snd (snd (snd y)) = calls @ new
       \<and> (\<forall>options. ListObjectsCall options \<in> set new \<longrightarrow> oss_Prefix dir \<in> set options)"
  have "?P listObjects f dir marker bk s calls (r, bk', s', calls')"
  proof (rule iter_loop.raw_induct [where P = ?P, OF _ assms])
    fix loop :: "'a list_objects \<Rightarrow> 'b visitor \<Rightarrow> string \<Rightarrow> string \<Rightarrow> 'a \<Rightarrow> 'b \<Rightarrow> call list
                   \<Rightarrow> (error option \<times> 'a \<times> 'b \<times> call list) option"
    fix listObjects :: "'a list_objects" and f :: "'b visitor" and dir marker bk s calls y
    assume IH: "\<And>L f dir marker bk s calls y.
                  loop L f dir marker bk s calls = Some y \<Longrightarrow> ?P L f dir marker bk s calls y"
    assume step: "(case listObjects (list_options dir marker) bk of
        (Inl err, bk') \<Rightarrow>
          Some (Some err, bk', s, calls @ [ListObjectsCall (list_options dir marker)])
      | (Inr lor, bk') \<Rightarrow>
          (case visit_names f (listNames lor) s of
             (None, s', visited) \<Rightarrow>
               if \<not> IsTruncated lor
               then Some (None, bk', s',
                 calls @ ListObjectsCall (list_options dir marker) # map VisitorCall visited)
               else loop listObjects f dir (NextMarker lor) bk' s'
                 (calls @ ListObjectsCall (list_options dir marker) # map VisitorCall visited)
           | (Some err, s', visited) \<Rightarrow>
               Some (Some err, bk', s',
                 calls @ ListObjectsCall (list_options dir marker) # map VisitorCall visited))) = Some y"
    obtain res bk1 where Pair: "listObjects (list_options dir marker) bk = (res, bk1)"
      by (cases "listObjects (list_options dir marker) bk")
    show "?P listObjects f dir marker bk s calls y"
    proof (cases res)
      case (Inl err)
      with Pair step have "snd (snd (snd y)) = calls @ [ListObjectsCall (list_options dir marker)]"
        by auto
      moreover have "\<forall>options. ListObjectsCall options \<in> set [ListObjectsCall (list_options dir marker)]
           \<longrightarrow> oss_Prefix dir \<in> set options"
        by (auto simp: list_options_def)
      ultimately show ?thesis by blast
    next
      case (Inr lor)
      obtain vr s1 visited where v: "visit_names f (listNames lor) s = (vr, s1, visited)"
        by (cases "visit_names f (listNames lor) s")
      let ?calls1 = "calls @ ListObjectsCall (list_options dir marker) # map VisitorCall visited"
      have new1: "\<forall>options. ListObjectsCall options
                    \<in> set (ListObjectsCall (list_options dir marker) # map VisitorCall visited)
                  \<longrightarrow> oss_Prefix dir \<in> set options"
        by (auto simp: list_options_def)
      show ?thesis
      proof (cases "vr = None \<and> IsTruncated lor")
        case False
        with Pair Inr v step have "snd (snd (snd y)) = ?calls1"
          by (auto split: option.splits if_splits)
        with new1 show ?thesis by blast
      next
        case True
        with Pair Inr v step have "loop listObjects f dir (NextMarker lor) bk1 s1 ?calls1 = Some y"
          by (auto split: option.splits if_splits)
        from IH [OF this] obtain new where
          n: "snd (snd (snd y)) = ?calls1 @ new"
             "\<forall>options. ListObjectsCall options \<in> set new \<longrightarrow> oss_Prefix dir \<in> set options"
          by blast
        from n(1) have "snd (snd (snd y))
            = calls @ (ListObjectsCall (list_options dir marker) # map VisitorCall visited @ new)"
          by simp
        moreover from new1 n(2) have "\<forall>options. ListObjectsCall options
            \<in> set (ListObjectsCall (list_options dir marker) # map VisitorCall visited @ new)
            \<longrightarrow> oss_Prefix dir \<in> set options"
          by auto
        ultimately show ?thesis by blast
      qed
    qed
  qed
  then show ?thesis by simp
qed

text \<open>A run that returns has made the request with the cursor it was started with.\<close>

lemma iter_loop_first_request:
  assumes "iter_loop listObjects f dir marker bk s calls = Some (r, bk', s', calls')"
  shows "\<exists>rest. calls' = calls @ ListObjectsCall (list_options dir marker) # rest"
proof -
  obtain res bk1 where Pair: "listObjects (list_options dir marker) bk = (res, bk1)"
    by (cases "listObjects (list_options dir marker) bk")
  show ?thesis
  proof (cases res)
    case (Inl err)
    with Pair assms have "calls' = calls @ ListObjectsCall (list_options dir marker) # []"
      by (subst (asm) iter_loop.simps) simp
    then show ?thesis by blast
  next
    case (Inr lor)
    obtain vr s1 visited where v: "visit_names f (listNames lor) s = (vr, s1, visited)"
      by (cases "visit_names f (listNames lor) s")
    let ?calls1 = "calls @ ListObjectsCall (list_options dir marker) # map VisitorCall visited"
    show ?thesis
    proof (cases "vr = None \<and> IsTruncated lor")
      case False
      with Pair Inr v assms have "calls' = ?calls1"
        by (subst (asm) iter_loop.simps) (auto split: option.splits if_splits)
      then show ?thesis by blast
    next
      case True
      with Pair Inr v assms
      have "iter_loop listObjects f dir (NextMarker lor) bk1 s1 ?calls1 = Some (r, bk', s', calls')"
        by (subst (asm) iter_loop.simps) (auto split: option.splits if_splits)
      from iter_loop_requests [OF this] obtain new where "calls' = ?calls1 @ new"
        by blast
      then have "calls' = calls @ ListObjectsCall (list_options dir marker)
                   # (map VisitorCall visited @ new)"
        by simp
      then show ?thesis by blast
    qed
  qed
qed

text \<open>A page that is not truncated ends the loop, whatever the visitor returns.\<close>

lemma iter_loop_last_page:
  assumes "listObjects (list_options dir marker) bk = (Inr lor, bk')"
    and "\<not> IsTruncated lor"
    and "visit_names f (listNames lor) s = (r, s', visited)"
  shows "iter_loop listObjects f dir marker bk s calls =
     Some (r, bk', s', calls @ ListObjectsCall (list_options dir marker) # map VisitorCall visited)"
  using assms by (subst iter_loop.simps) (auto split: option.splits)

subsection \<open>The copy loop\<close>

lemma copy_loop_skip:
  assumes "copied sys w chunks w'"
  shows "copy_loop sys w calls = copy_loop sys w' (calls @ copy_calls chunks)"
  using assms
proof (induction arbitrary: calls rule: copied.induct)
  case (copied_none w)
  then show ?case by simp
next
  case (copied_chunk w buf err w1 w2 chunks w')
  have "copy_loop sys w calls =
        copy_loop sys w2 (calls @ [ReaderReadCall (1024 * 1024 * 1024), WriterWriteCall buf])"
    using copied_chunk.hyps by (subst copy_loop.simps) auto
  also have "\<dots> = copy_loop sys w'
      ((calls @ [ReaderReadCall (1024 * 1024 * 1024), WriterWriteCall buf]) @ copy_calls chunks)"
    by (rule copied_chunk.IH)
  finally show ?case by simp
qed



lemma copy_loop_done:
  assumes "reader_Read sys (1024 * 1024 * 1024) w = (([], rerr), w1)"
    and "rerr = None \<or> rerr = Some io_EOF"
  shows "copy_loop sys w calls = Some (None, w1, calls @ [ReaderReadCall (1024 * 1024 * 1024)])"
  using assms by (subst copy_loop.simps) auto

subsection \<open>Reading objects\<close>

lemma getRange_call:
  assumes "name \<noteq> ''''"
  shows "getRange getObject name off len bk =
     (fst (getObject name [oss_Range off (off + len - 1)] bk),
      snd (getObject name [oss_Range off (off + len - 1)] bk),
      [GetObjectCall name [oss_Range off (off + len - 1)]])"
  using assms by (simp add: getRange_def Let_def split: prod.splits sum.splits)

subsection \<open>An example run\<close>

text \<open>The run of \<^verbatim>\<open>Iter\<close> on the two-page backend with the recording visitor.\<close>

lemma two_page_run:
  "Iter two_page_backend recording_visitor ''a'' 0 [] =
     Some (None, 2, [''a/1'', ''a/2'', ''a/3'', ''a/x/'', ''a/y'', ''a/z/''],
       [ListObjectsCall (list_options ''a/'' ''''),
        VisitorCall ''a/1'', VisitorCall ''a/2'', VisitorCall ''a/3'', VisitorCall ''a/x/'',
        ListObjectsCall (list_options ''a/'' ''a/x/''),
        VisitorCall ''a/y'', VisitorCall ''a/z/''])"
  unfolding Iter_def normalize_dir_a
  apply (subst iter_loop.simps)
  apply (simp add: two_page_backend_def page_one_def listNames_def recording_visitor_def)
  apply (subst iter_loop.simps)
  apply (simp add: two_page_backend_def page_two_def listNames_def recording_visitor_def list_options_def)
  done

section \<open>The claims\<close>

text \<open>
  C1. When the backend answers the successive requests of \<^verbatim>\<open>Iter\<close> (the first with the
  empty cursor, each later one with the cursor returned by the page before) with the
  truncated pages \<open>pages\<close> and then with a page \<open>lor\<close> that is not truncated, and the
  visitor accepts every name, \<^verbatim>\<open>Iter\<close> returns \<^verbatim>\<open>nil\<close> after exactly these requests, and
  the visitor has been called once on each entry: page by page, and within a page on the
  keys of all objects before the common prefixes. The last page may be empty. The
  delimiter is the constant \<^verbatim>\<open>/\<close> of every request.
\<close>

theorem Iter_visits_every_entry_once:
  assumes "truncated_pages listObjects (normalize_dir dir) '''' bk pages marker bk1"
    and "listObjects (list_options (normalize_dir dir) marker) bk1 = (Inr lor, bk')"
    and "\<not> IsTruncated lor"
    and "visit_names f (concat (map listNames (pages @ [lor]))) s = (None, s', visited)"
  shows "Iter listObjects f dir bk s
           = Some (None, bk', s', page_calls (normalize_dir dir) '''' (pages @ [lor]))
         \<and> visited_names (page_calls (normalize_dir dir) '''' (pages @ [lor]))
             = concat (map (\<lambda>p. map Key (Objects p) @ CommonPrefixes p) (pages @ [lor]))"
proof -
  let ?d = "normalize_dir dir"
  from assms(4) obtain s1 where
    v1: "visit_names f (concat (map listNames pages)) s = (None, s1, concat (map listNames pages))"
    and v2: "visit_names f (listNames lor) s1 = (None, s', listNames lor)"
    using visit_names_append_None [of f "concat (map listNames pages)" "listNames lor" s s' visited]
    by auto
  have "Iter listObjects f dir bk s
        = iter_loop listObjects f ?d marker bk1 s1 ([] @ page_calls ?d '''' pages)"
    unfolding Iter_def by (rule iter_loop_skip [OF assms(1) v1])
  also have "\<dots> = Some (None, bk', s',
      page_calls ?d '''' pages @ ListObjectsCall (list_options ?d marker) # map VisitorCall (listNames lor))"
    by (subst iter_loop.simps) (simp add: assms(2,3) v2)
  also have "page_calls ?d '''' pages @ ListObjectsCall (list_options ?d marker) # map VisitorCall (listNames lor)
      = page_calls ?d '''' (pages @ [lor])"
    by (simp add: page_calls_append [OF assms(1)])
  finally have "Iter listObjects f dir bk s = Some (None, bk', s', page_calls ?d '''' (pages @ [lor]))" .
  moreover have "visited_names (page_calls ?d '''' (pages @ [lor]))
      = concat (map (\<lambda>p. map Key (Objects p) @ CommonPrefixes p) (pages @ [lor]))"
    by (simp add: visited_names_page_calls listNames_def [abs_def])
  ultimately show ?thesis by simp
qed

text \<open>The two-page backend, listed with the recording visitor.\<close>

theorem Iter_visits_every_entry_once_witness:
  "Iter two_page_backend recording_visitor ''a'' 0 []
     = Some (None, 2, [''a/1'', ''a/2'', ''a/3'', ''a/x/'', ''a/y'', ''a/z/''],
         page_calls ''a/'' '''' [page_one, page_two])
   \<and> visited_names (page_calls ''a/'' '''' [page_one, page_two])
       = [''a/1'', ''a/2'', ''a/3'', ''a/x/'', ''a/y'', ''a/z/'']"
proof -
  have first: "two_page_backend (list_options ''a/'' '''') 0 = (Inr page_one, 1)"
    by (simp add: two_page_backend_def)
  have "truncated_pages two_page_backend ''a/'' '''' 0 [page_one] (NextMarker page_one) 1"
  proof (rule next_page)
    show "two_page_backend (list_options ''a/'' '''') 0 = (Inr page_one, 1)" by (rule first)
    show "IsTruncated page_one" by (simp add: page_one_def)
    show "truncated_pages two_page_backend ''a/'' (NextMarker page_one) 1 [] (NextMarker page_one) 1"
      by (rule no_page)
  qed
  then have pages: "truncated_pages two_page_backend (normalize_dir ''a'') '''' 0 [page_one] ''a/x/'' 1"
    by (simp add: normalize_dir_a page_one_def)
  have last: "two_page_backend (list_options (normalize_dir ''a'') ''a/x/'') 1 = (Inr page_two, 2)"
    by (simp add: normalize_dir_a two_page_backend_def list_options_def)
  have final: "\<not> IsTruncated page_two"
    by (simp add: page_two_def)
  have accepted: "visit_names recording_visitor (concat (map listNames ([page_one] @ [page_two]))) []
      = (None, [''a/1'', ''a/2'', ''a/3'', ''a/x/'', ''a/y'', ''a/z/''],
               [''a/1'', ''a/2'', ''a/3'', ''a/x/'', ''a/y'', ''a/z/''])"
    by (simp add: listNames_def page_one_def page_two_def recording_visitor_def)
  show ?thesis
    using Iter_visits_every_entry_once [OF pages last final accepted]
    by (simp add: normalize_dir_a page_one_def page_two_def)
qed

text \<open>
  C2. \<^verbatim>\<open>Get(name)\<close> is \<^verbatim>\<open>getRange(name, 0, -1)\<close>, and for the length \<open>-1\<close> the code
  still builds a range option: the request for the whole object \<^verbatim>\<open>obj\<close> goes to the
  backend with the range from byte 0 to byte \<open>-2\<close>.
\<close>

theorem Get_sends_range_0_to_minus_2:
  "Get logging_get_object ''obj'' []
     = (Inr ''body'', [(''obj'', [oss_Range 0 (- 2)])], [GetObjectCall ''obj'' [oss_Range 0 (- 2)]])
   \<and> sint (- 2 :: int64) = - 2"
  by (simp add: Get_def getRange_call logging_get_object_def)

text \<open>
  C3, as stated, fails: a \<^verbatim>\<open>GetRange\<close> of length 0 at offset 5 is not rejected; it
  reaches the backend with the range from byte 5 to byte 4 and returns what the backend
  returns.
\<close>

theorem GetRange_zero_length_reaches_backend:
  "GetRange logging_get_object ''obj'' 5 0 []
     = (Inr ''body'', [(''obj'', [oss_Range 5 4])], [GetObjectCall ''obj'' [oss_Range 5 4]])"
  by (simp add: GetRange_def getRange_call logging_get_object_def)

text \<open>
  C3, amended. For a non-empty object name and a length that is 0 or below \<open>-1\<close>,
  \<^verbatim>\<open>GetRange\<close> checks nothing: it makes one \<^verbatim>\<open>GetObject\<close> call with the range from
  \<^verbatim>\<open>off\<close> to \<^verbatim>\<open>off+length-1\<close> (in 64-bit arithmetic) and returns the backend's result.
\<close>

theorem GetRange_does_not_validate_range:
  assumes "name \<noteq> ''''" and "len = 0 \<or> len <s - 1"
  shows "GetRange getObject name off len bk =
     (fst (getObject name [oss_Range off (off + len - 1)] bk),
      snd (getObject name [oss_Range off (off + len - 1)] bk),
      [GetObjectCall name [oss_Range off (off + len - 1)]])"
  unfolding GetRange_def by (rule getRange_call [OF assms(1)])

theorem GetRange_does_not_validate_range_witness:
  "''obj'' \<noteq> '''' \<and> (- 5 :: int64) <s - 1
   \<and> GetRange logging_get_object ''obj'' 0 (- 5) []
       = (Inr ''body'', [(''obj'', [oss_Range 0 (- 6)])], [GetObjectCall ''obj'' [oss_Range 0 (- 6)]])"
proof -
  have n: "''obj'' \<noteq> ''''" by simp
  have l: "(- 5 :: int64) = 0 \<or> (- 5 :: int64) <s - 1" by (simp add: word_sless_alt)
  show ?thesis
    using GetRange_does_not_validate_range [OF n l, of logging_get_object 0 "[]"] l
    by (simp add: logging_get_object_def)
qed





text \<open>
  C5, as stated, fails: the backend upload succeeds and the removal of the scratch file
  fails; \<^verbatim>\<open>Upload\<close> then returns the removal's error instead of \<^verbatim>\<open>nil\<close>.
\<close>

theorem Upload_remove_failure_replaces_success:
  "Upload (scripted_sys [([1, 2, 3], None)] None None None
             (Some (External Permission ''remove /tmp/thanos.tmp: operation not permitted''))
             None) ''obj'' 0
     = Some (Returned (Some (errors_Wrap
                (External Permission ''remove /tmp/thanos.tmp: operation not permitted'')
                ''deleted tmp uploadFile'')), 2,
         [OsCreateCall ''/tmp/thanos.tmp'',
          ReaderReadCall (1024 * 1024 * 1024), WriterWriteCall [1, 2, 3],
          ReaderReadCall (1024 * 1024 * 1024), WriterFlushCall,
          UploadFileCall ''obj'' ''/tmp/thanos.tmp'' (1024 * 1024 * 1024 * 2),
          OsRemoveCall ''/tmp/thanos.tmp'', FileCloseCall])"
  unfolding Upload_def upload_body_def Let_def
  apply (subst copy_loop.simps)
  apply (simp add: scripted_sys_def)
  apply (subst copy_loop.simps)
  apply (simp add: scripted_sys_def)
  done

text \<open>
  C5, amended. When the input has been copied and flushed and the backend upload has
  succeeded, \<^verbatim>\<open>Upload\<close> removes the scratch file and then closes it. If the deferred
  \<^verbatim>\<open>Close\<close> succeeds, the result of \<^verbatim>\<open>Upload\<close> is the removal's error wrapped with
  \<^verbatim>\<open>deleted tmp uploadFile\<close> when the removal failed, and \<^verbatim>\<open>nil\<close> when it succeeded;
  if the \<^verbatim>\<open>Close\<close> fails, \<^verbatim>\<open>Upload\<close> panics with the error of the \<^verbatim>\<open>Close\<close>.
\<close>

theorem Upload_removes_scratch_after_backend_success:
  assumes "os_Create sys ''/tmp/thanos.tmp'' w = (None, w1)"
    and "copied sys w1 chunks w2"
    and "reader_Read sys (1024 * 1024 * 1024) w2 = (([], rerr), w3)"
    and "rerr = None \<or> rerr = Some io_EOF"
    and "writer_Flush sys w3 = (None, w4)"
    and "bkt_UploadFile sys name ''/tmp/thanos.tmp'' (1024 * 1024 * 1024 * 2) w4 = (None, w5)"
    and "os_Remove sys ''/tmp/thanos.tmp'' w5 = (rmerr, w6)"
    and "file_Close sys w6 = (cerr, w7)"
  shows "Upload sys name w =
      Some ((case cerr of
               Some ce \<Rightarrow> Panicked ce
             | None \<Rightarrow>
                 Returned (case rmerr of None \<Rightarrow> None
                           | Some e \<Rightarrow> Some (errors_Wrap e ''deleted tmp uploadFile''))), w7,
        OsCreateCall ''/tmp/thanos.tmp'' # copy_calls chunks
          @ [ReaderReadCall (1024 * 1024 * 1024), WriterFlushCall,
             UploadFileCall name ''/tmp/thanos.tmp'' (1024 * 1024 * 1024 * 2),
             OsRemoveCall ''/tmp/thanos.tmp'', FileCloseCall])"
proof -
  have "copy_loop sys w1 [OsCreateCall ''/tmp/thanos.tmp'']
        = copy_loop sys w2 ([OsCreateCall ''/tmp/thanos.tmp''] @ copy_calls chunks)"
    by (rule copy_loop_skip [OF assms(2)])
  also have "\<dots> = Some (None, w3,
      ([OsCreateCall ''/tmp/thanos.tmp''] @ copy_calls chunks) @ [ReaderReadCall (1024 * 1024 * 1024)])"
    by (rule copy_loop_done [OF assms(3,4)])
  finally show ?thesis
    using assms(1,5-8) by (simp add: Upload_def upload_body_def Let_def split: option.splits)
qed

text \<open>
  An upload of two chunks in which every call succeeds; one in which the removal fails
  after two chunks; and one in which only the deferred \<^verbatim>\<open>Close\<close> fails.
\<close>

theorem Upload_removes_scratch_after_backend_success_witness:
  "Upload (scripted_sys [([1, 2], None), ([3], Some io_EOF)] None None None None None) ''obj'' 0
     = Some (Returned None, 3,
         [OsCreateCall ''/tmp/thanos.tmp'',
          ReaderReadCall (1024 * 1024 * 1024), WriterWriteCall [1, 2],
          ReaderReadCall (1024 * 1024 * 1024), WriterWriteCall [3],
          ReaderReadCall (1024 * 1024 * 1024), WriterFlushCall,
          UploadFileCall ''obj'' ''/tmp/thanos.tmp'' (1024 * 1024 * 1024 * 2),
          OsRemoveCall ''/tmp/thanos.tmp'', FileCloseCall])
   \<and> Upload (scripted_sys [([1, 2], None), ([3], Some io_EOF)] None None None
               (Some (External OtherCause ''remove /tmp/thanos.tmp: no such file or directory''))
               None) ''obj'' 0
     = Some (Returned (Some (errors_Wrap
                (External OtherCause ''remove /tmp/thanos.tmp: no such file or directory'')
                ''deleted tmp uploadFile'')), 3,
         [OsCreateCall ''/tmp/thanos.tmp'',
          ReaderReadCall (1024 * 1024 * 1024), WriterWriteCall [1, 2],
          ReaderReadCall (1024 * 1024 * 1024), WriterWriteCall [3],
          ReaderReadCall (1024 * 1024 * 1024), WriterFlushCall,
          UploadFileCall ''obj'' ''/tmp/thanos.tmp'' (1024 * 1024 * 1024 * 2),
          OsRemoveCall ''/tmp/thanos.tmp'', FileCloseCall])
   \<and> Upload (scripted_sys [] None None None None
               (Some (External OtherCause ''close /tmp/thanos.tmp: input/output error'')))
             ''obj'' 0
     = Some (Panicked (External OtherCause ''close /tmp/thanos.tmp: input/output error''), 1,
         [OsCreateCall ''/tmp/thanos.tmp'',
          ReaderReadCall (1024 * 1024 * 1024), WriterFlushCall,
          UploadFileCall ''obj'' ''/tmp/thanos.tmp'' (1024 * 1024 * 1024 * 2),
          OsRemoveCall ''/tmp/thanos.tmp'', FileCloseCall])"
proof -
  let ?ok = "scripted_sys [([1, 2], None), ([3], Some io_EOF)] None None None None None"
  let ?rm = "scripted_sys [([1, 2], None), ([3], Some io_EOF)] None None None
               (Some (External OtherCause ''remove /tmp/thanos.tmp: no such file or directory''))
               None"
  let ?cl = "scripted_sys [] None None None None
               (Some (External OtherCause ''close /tmp/thanos.tmp: input/output error''))"
  have eof: "Some io_EOF = None \<or> Some io_EOF = Some io_EOF"
    by simp
  have create: "os_Create ?ok ''/tmp/thanos.tmp'' 0 = (None, 0)"
    by (simp add: scripted_sys_def)
  have read1: "reader_Read ?ok (1024 * 1024 * 1024) 0 = (([1, 2], None), 1)"
    by (simp add: scripted_sys_def)
  have write1: "writer_Write ?ok [1, 2] 1 = (None, 1)"
    by (simp add: scripted_sys_def)
  have read2: "reader_Read ?ok (1024 * 1024 * 1024) 1 = (([3], Some io_EOF), 2)"
    by (simp add: scripted_sys_def)
  have write2: "writer_Write ?ok [3] 2 = (None, 2)"
    by (simp add: scripted_sys_def)
  have one: "copied ?ok 1 [[3]] 2"
    by (rule copied_chunk [OF read2 _ _ write2 copied_none]) simp_all
  have two: "copied ?ok 0 [[1, 2], [3]] 2"
    by (rule copied_chunk [OF read1 _ _ write1 one]) simp_all
  have read3: "reader_Read ?ok (1024 * 1024 * 1024) 2 = (([], Some io_EOF), 3)"
    by (simp add: scripted_sys_def)
  have flush: "writer_Flush ?ok 3 = (None, 3)"
    by (simp add: scripted_sys_def)
  have upload: "bkt_UploadFile ?ok ''obj'' ''/tmp/thanos.tmp'' (1024 * 1024 * 1024 * 2) 3 = (None, 3)"
    by (simp add: scripted_sys_def)
  have remove: "os_Remove ?ok ''/tmp/thanos.tmp'' 3 = (None, 3)"
    by (simp add: scripted_sys_def)
  have close: "file_Close ?ok 3 = (None, 3)"
    by (simp add: scripted_sys_def)
  have create_rm: "os_Create ?rm ''/tmp/thanos.tmp'' 0 = (None, 0)"
    by (simp add: scripted_sys_def)
  have read1_rm: "reader_Read ?rm (1024 * 1024 * 1024) 0 = (([1, 2], None), 1)"
    by (simp add: scripted_sys_def)
  have write1_rm: "writer_Write ?rm [1, 2] 1 = (None, 1)"
    by (simp add: scripted_sys_def)
  have read2_rm: "reader_Read ?rm (1024 * 1024 * 1024) 1 = (([3], Some io_EOF), 2)"
    by (simp add: scripted_sys_def)
  have write2_rm: "writer_Write ?rm [3] 2 = (None, 2)"
    by (simp add: scripted_sys_def)
  have one_rm: "copied ?rm 1 [[3]] 2"
    by (rule copied_chunk [OF read2_rm _ _ write2_rm copied_none]) simp_all
  have two_rm: "copied ?rm 0 [[1, 2], [3]] 2"
    by (rule copied_chunk [OF read1_rm _ _ write1_rm one_rm]) simp_all
  have read3_rm: "reader_Read ?rm (1024 * 1024 * 1024) 2 = (([], Some io_EOF), 3)"
    by (simp add: scripted_sys_def)
  have flush_rm: "writer_Flush ?rm 3 = (None, 3)"
    by (simp add: scripted_sys_def)
  have upload_rm: "bkt_UploadFile ?rm ''obj'' ''/tmp/thanos.tmp'' (1024 * 1024 * 1024 * 2) 3 = (None, 3)"
    by (simp add: scripted_sys_def)
  have remove_rm: "os_Remove ?rm ''/tmp/thanos.tmp'' 3
      = (Some (External OtherCause ''remove /tmp/thanos.tmp: no such file or directory''), 3)"
    by (simp add: scripted_sys_def)
  have close_rm: "file_Close ?rm 3 = (None, 3)"
    by (simp add: scripted_sys_def)
  have create_cl: "os_Create ?cl ''/tmp/thanos.tmp'' 0 = (None, 0)"
    by (simp add: scripted_sys_def)
  have read_cl: "reader_Read ?cl (1024 * 1024 * 1024) 0 = (([], Some io_EOF), 1)"
    by (simp add: scripted_sys_def)
  have flush_cl: "writer_Flush ?cl 1 = (None, 1)"
    by (simp add: scripted_sys_def)
  have upload_cl: "bkt_UploadFile ?cl ''obj'' ''/tmp/thanos.tmp'' (1024 * 1024 * 1024 * 2) 1 = (None, 1)"
    by (simp add: scripted_sys_def)
  have remove_cl: "os_Remove ?cl ''/tmp/thanos.tmp'' 1 = (None, 1)"
    by (simp add: scripted_sys_def)
  have close_cl: "file_Close ?cl 1
      = (Some (External OtherCause ''close /tmp/thanos.tmp: input/output error''), 1)"
    by (simp add: scripted_sys_def)
  show ?thesis
    using Upload_removes_scratch_after_backend_success
            [OF create two read3 eof flush upload remove close]
          Upload_removes_scratch_after_backend_success
            [OF create_rm two_rm read3_rm eof flush_rm upload_rm remove_rm close_rm]
          Upload_removes_scratch_after_backend_success
            [OF create_cl copied_none read_cl eof flush_cl upload_cl remove_cl close_cl]
    by simp
qed

text \<open>
  C6. \<^verbatim>\<open>Iter\<close> leaves the empty prefix empty; to a non-empty prefix that does not end
  with the delimiter it appends the delimiter, and one that ends with it stays as it is.
  The listing is made with that normalized prefix: a run that returns starts with the
  request for the normalized prefix at the empty cursor, every request of the run
  carries the normalized prefix, and when the backend answers that first request with a
  page that is not truncated, \<^verbatim>\<open>Iter\<close> returns after visiting the names of exactly
  that page. So \<^verbatim>\<open>Iter\<close> on \<open>dir\<close> and on \<open>dir\<close> followed by the delimiter are the
  same run.
\<close>

theorem Iter_normalizes_prefix:
  "normalize_dir '''' = ''''
   \<and> (dir \<noteq> '''' \<longrightarrow> normalize_dir dir = (if suffix ''/'' dir then dir else dir @ ''/''))
   \<and> (dir \<noteq> '''' \<and> \<not> suffix ''/'' dir \<longrightarrow>
        Iter listObjects f dir bk s = Iter listObjects f (dir @ ''/'') bk s)
   \<and> (Iter listObjects f dir bk s = Some (r, bk', s', calls) \<longrightarrow>
        (\<exists>rest. calls = ListObjectsCall (list_options (normalize_dir dir) '''') # rest)
        \<and> (\<forall>options. ListObjectsCall options \<in> set calls \<longrightarrow>
             oss_Prefix (normalize_dir dir) \<in> set options))
   \<and> (listObjects (list_options (normalize_dir dir) '''') bk = (Inr lor, bk1)
        \<and> \<not> IsTruncated lor \<and> visit_names f (listNames lor) s = (vr, s1, visited) \<longrightarrow>
        Iter listObjects f dir bk s =
          Some (vr, bk1, s1,
            ListObjectsCall (list_options (normalize_dir dir) '''') # map VisitorCall visited))"
proof (intro conjI impI)
  show "normalize_dir '''' = ''''" by (simp add: normalize_dir_eq)
  show "normalize_dir dir = (if suffix ''/'' dir then dir else dir @ ''/'')" if "dir \<noteq> ''''"
    using that by (simp add: normalize_dir_eq)
  show "Iter listObjects f dir bk s = Iter listObjects f (dir @ ''/'') bk s"
    if "dir \<noteq> '''' \<and> \<not> suffix ''/'' dir"
    using that by (simp add: Iter_def normalize_dir_eq)
  show "\<exists>rest. calls = ListObjectsCall (list_options (normalize_dir dir) '''') # rest"
    if "Iter listObjects f dir bk s = Some (r, bk', s', calls)"
    using iter_loop_first_request [OF that [unfolded Iter_def]] by simp
  show "\<forall>options. ListObjectsCall options \<in> set calls \<longrightarrow>
           oss_Prefix (normalize_dir dir) \<in> set options"
    if "Iter listObjects f dir bk s = Some (r, bk', s', calls)"
    using iter_loop_requests [OF that [unfolded Iter_def]] by simp
  show "Iter listObjects f dir bk s =
          Some (vr, bk1, s1,
            ListObjectsCall (list_options (normalize_dir dir) '''') # map VisitorCall visited)"
    if "listObjects (list_options (normalize_dir dir) '''') bk = (Inr lor, bk1)
        \<and> \<not> IsTruncated lor \<and> visit_names f (listNames lor) s = (vr, s1, visited)"
    using that iter_loop_last_page [of listObjects "normalize_dir dir" "''''" bk lor bk1 f s vr s1 visited "[]"]
    by (simp add: Iter_def)
qed

text \<open>
  The two-page backend, listed from \<^verbatim>\<open>a\<close> and from \<^verbatim>\<open>a/\<close>: the same run, which begins
  with the request for the prefix \<^verbatim>\<open>a/\<close>. The root backend, listed from the empty prefix:
  the request carries the empty prefix and the names of the root page are visited.
\<close>

theorem Iter_normalizes_prefix_witness:
  "normalize_dir ''a'' = ''a/''
   \<and> Iter two_page_backend recording_visitor ''a/'' 0 []
       = Iter two_page_backend recording_visitor ''a'' 0 []
   \<and> (\<exists>rest. Iter two_page_backend recording_visitor ''a/'' 0 []
         = Some (None, 2, [''a/1'', ''a/2'', ''a/3'', ''a/x/'', ''a/y'', ''a/z/''],
             ListObjectsCall [oss_MaxKeys 1000, oss_Marker '''', oss_Prefix ''a/'', oss_Delimiter ''/'']
               # rest))
   \<and> Iter root_backend recording_visitor '''' 0 []
       = Some (None, 1, [''readme'', ''a/''],
           [ListObjectsCall [oss_MaxKeys 1000, oss_Marker '''', oss_Prefix '''', oss_Delimiter ''/''],
            VisitorCall ''readme'', VisitorCall ''a/''])"
proof -
  have nonempty: "''a'' \<noteq> ''''" by simp
  have open_end: "\<not> suffix ''/'' ''a''" by (simp add: suffix_to_prefix)
  note a = Iter_normalizes_prefix [of "''a''" two_page_backend recording_visitor 0 "[]"
      None 2 "[''a/1'', ''a/2'', ''a/3'', ''a/x/'', ''a/y'', ''a/z/'']"
      "[ListObjectsCall (list_options ''a/'' ''''),
        VisitorCall ''a/1'', VisitorCall ''a/2'', VisitorCall ''a/3'', VisitorCall ''a/x/'',
        ListObjectsCall (list_options ''a/'' ''a/x/''),
        VisitorCall ''a/y'', VisitorCall ''a/z/'']"
      page_one 1 None "[]" "[]"]
  have norm: "normalize_dir ''a'' = ''a/''"
    using a [THEN conjunct2, THEN conjunct1] nonempty open_end by simp
  have same: "Iter two_page_backend recording_visitor ''a'' 0 []
                 = Iter two_page_backend recording_visitor ''a/'' 0 []"
    using a [THEN conjunct2, THEN conjunct2, THEN conjunct1] nonempty open_end by simp
  have first: "\<exists>rest.
      [ListObjectsCall (list_options ''a/'' ''''),
        VisitorCall ''a/1'', VisitorCall ''a/2'', VisitorCall ''a/3'', VisitorCall ''a/x/'',
        ListObjectsCall (list_options ''a/'' ''a/x/''),
        VisitorCall ''a/y'', VisitorCall ''a/z/'']
      = ListObjectsCall (list_options (normalize_dir ''a'') '''') # rest"
    by (rule mp [OF a [THEN conjunct2, THEN conjunct2, THEN conjunct2, THEN conjunct1]
                  two_page_run, THEN conjunct1])
  then obtain rest where rest: "[ListObjectsCall (list_options ''a/'' ''''),
        VisitorCall ''a/1'', VisitorCall ''a/2'', VisitorCall ''a/3'', VisitorCall ''a/x/'',
        ListObjectsCall (list_options ''a/'' ''a/x/''),
        VisitorCall ''a/y'', VisitorCall ''a/z/'']
      = ListObjectsCall (list_options ''a/'' '''') # rest"
    unfolding norm by blast
  have "Iter two_page_backend recording_visitor ''a/'' 0 []
         = Some (None, 2, [''a/1'', ''a/2'', ''a/3'', ''a/x/'', ''a/y'', ''a/z/''],
             ListObjectsCall (list_options ''a/'' '''') # rest)"
    unfolding same [symmetric] two_page_run rest [symmetric] by (rule refl)
  then have run: "\<exists>rest. Iter two_page_backend recording_visitor ''a/'' 0 []
         = Some (None, 2, [''a/1'', ''a/2'', ''a/3'', ''a/x/'', ''a/y'', ''a/z/''],
             ListObjectsCall [oss_MaxKeys 1000, oss_Marker '''', oss_Prefix ''a/'', oss_Delimiter ''/'']
               # rest)"
    unfolding list_options_def by blast
  have root_dir: "normalize_dir '''' = ''''"
    by (simp add: normalize_dir_eq)
  have root_request: "root_backend (list_options (normalize_dir '''') '''') 0 = (Inr root_page, 1)"
    by (simp add: root_dir root_backend_def)
  have root_final: "\<not> IsTruncated root_page"
    by (simp add: root_page_def)
  have root_visit: "visit_names recording_visitor (listNames root_page) []
      = (None, [''readme'', ''a/''], [''readme'', ''a/''])"
    by (simp add: listNames_def root_page_def recording_visitor_def)
  note b = Iter_normalizes_prefix [of "''''" root_backend recording_visitor 0 "[]"
      None 1 "[''readme'', ''a/'']" "[]"
      root_page 1 None "[''readme'', ''a/'']" "[''readme'', ''a/'']"]
  have "Iter root_backend recording_visitor '''' 0 []
       = Some (None, 1, [''readme'', ''a/''],
           ListObjectsCall (list_options (normalize_dir '''') '''')
             # map VisitorCall [''readme'', ''a/''])"
    by (rule mp [OF b [THEN conjunct2, THEN conjunct2, THEN conjunct2, THEN conjunct2]
                  conjI [OF root_request conjI [OF root_final root_visit]]])
  then have root: "Iter root_backend recording_visitor '''' 0 []
       = Some (None, 1, [''readme'', ''a/''],
           [ListObjectsCall [oss_MaxKeys 1000, oss_Marker '''', oss_Prefix '''', oss_Delimiter ''/''],
            VisitorCall ''readme'', VisitorCall ''a/''])"
    by (simp add: root_dir list_options_def)
  from norm same [symmetric] run root show ?thesis by blast
qed

text \<open>
  C7. When the visitor has accepted the names of some truncated pages and the names
  \<open>before\<close> of the next page, and returns an error on the name that follows, \<^verbatim>\<open>Iter\<close>
  returns that very error, and the call on that name is the last call of the run: the
  names \<open>after\<close> it in the page are not visited and no further page is requested.
\<close>

theorem Iter_stops_at_visitor_error:
  assumes "truncated_pages listObjects (normalize_dir dir) '''' bk pages marker bk1"
    and "listObjects (list_options (normalize_dir dir) marker) bk1 = (Inr lor, bk')"
    and "listNames lor = before @ name # after"
    and "visit_names f (concat (map listNames pages) @ before) s = (None, s1, visited)"
    and "f name s1 = (Some err, s2)"
  shows "Iter listObjects f dir bk s =
           Some (Some err, bk', s2,
             page_calls (normalize_dir dir) '''' pages
               @ ListObjectsCall (list_options (normalize_dir dir) marker)
               # map VisitorCall (before @ [name]))"
proof -
  let ?d = "normalize_dir dir"
  from assms(4) obtain s0 where
    v1: "visit_names f (concat (map listNames pages)) s = (None, s0, concat (map listNames pages))"
    and v2: "visit_names f before s0 = (None, s1, before)"
    using visit_names_append_None [of f "concat (map listNames pages)" before s s1 visited]
    by auto
  have v3: "visit_names f (listNames lor) s0 = (Some err, s2, before @ [name])"
    unfolding assms(3) by (rule visit_names_fail [OF v2 assms(5)])
  have "Iter listObjects f dir bk s
        = iter_loop listObjects f ?d marker bk1 s0 ([] @ page_calls ?d '''' pages)"
    unfolding Iter_def by (rule iter_loop_skip [OF assms(1) v1])
  also have "\<dots> = Some (Some err, bk', s2,
      page_calls ?d '''' pages @ ListObjectsCall (list_options ?d marker) # map VisitorCall (before @ [name]))"
    by (subst iter_loop.simps) (simp add: assms(2) v3)
  finally show ?thesis .
qed

text \<open>
  The visitor that fails on the third name, on the two-page backend: the fourth name of
  the first page is not visited and the second page is not requested.
\<close>

theorem Iter_stops_at_visitor_error_witness:
  "Iter two_page_backend third_fails_visitor ''a'' 0 []
     = Some (Some (errors_New ''stop here''), 1, [''a/1'', ''a/2'', ''a/3''],
         [ListObjectsCall (list_options ''a/'' ''''),
          VisitorCall ''a/1'', VisitorCall ''a/2'', VisitorCall ''a/3''])"
proof -
  have pages: "truncated_pages two_page_backend (normalize_dir ''a'') '''' 0 [] '''' 0"
    by (rule no_page)
  have page: "two_page_backend (list_options (normalize_dir ''a'') '''') 0 = (Inr page_one, 1)"
    by (simp add: normalize_dir_a two_page_backend_def)
  have names: "listNames page_one = [''a/1'', ''a/2''] @ ''a/3'' # [''a/x/'']"
    by (simp add: listNames_def page_one_def)
  have accepted: "visit_names third_fails_visitor (concat (map listNames []) @ [''a/1'', ''a/2'']) []
      = (None, [''a/1'', ''a/2''], [''a/1'', ''a/2''])"
    by (simp add: third_fails_visitor_def)
  have fails: "third_fails_visitor ''a/3'' [''a/1'', ''a/2'']
      = (Some (errors_New ''stop here''), [''a/1'', ''a/2'', ''a/3''])"
    by (simp add: third_fails_visitor_def)
  show ?thesis
    using Iter_stops_at_visitor_error [OF pages page names accepted fails]
    by (simp add: normalize_dir_a)
qed

text \<open>
  C8, as stated, fails: a configuration without bucket and one without endpoint get the
  same error, and its text names neither field.
\<close>

theorem validate_error_does_not_name_field:
  "validate \<lparr>Bucket = '''', Endpoint = ''e'', AccessID = ''i'', AccessKey = ''k''\<rparr>
     = Some (errors_New ''insufficient oss configuration information'')
   \<and> validate \<lparr>Bucket = ''b'', Endpoint = '''', AccessID = ''i'', AccessKey = ''k''\<rparr>
     = Some (errors_New ''insufficient oss configuration information'')
   \<and> \<not> Contains (Error (errors_New ''insufficient oss configuration information'')) ''bucket''
   \<and> \<not> Contains (Error (errors_New ''insufficient oss configuration information'')) ''endpoint''"
  by (simp add: validate_def)

text \<open>
  C8, amended. When all four fields are non-empty, \<^verbatim>\<open>validate\<close> returns \<^verbatim>\<open>nil\<close>; when
  at least one is empty, it fails with the one error
  \<^verbatim>\<open>insufficient oss configuration information\<close>, whichever field is missing.
\<close>

theorem validate_reports_fixed_error:
  "(Bucket conf \<noteq> '''' \<and> Endpoint conf \<noteq> '''' \<and> AccessID conf \<noteq> '''' \<and> AccessKey conf \<noteq> ''''
      \<longrightarrow> validate conf = None)
   \<and> (Bucket conf = '''' \<or> Endpoint conf = '''' \<or> AccessID conf = '''' \<or> AccessKey conf = ''''
      \<longrightarrow> validate conf = Some (errors_New ''insufficient oss configuration information''))"
  by (simp add: validate_def)

theorem validate_reports_fixed_error_witness:
  "validate \<lparr>Bucket = ''b'', Endpoint = ''e'', AccessID = ''i'', AccessKey = ''k''\<rparr> = None
   \<and> validate \<lparr>Bucket = ''b'', Endpoint = ''e'', AccessID = '''', AccessKey = ''k''\<rparr>
       = Some (errors_New ''insufficient oss configuration information'')"
  using validate_reports_fixed_error
          [of "\<lparr>Bucket = ''b'', Endpoint = ''e'', AccessID = ''i'', AccessKey = ''k''\<rparr>"]
        validate_reports_fixed_error
          [of "\<lparr>Bucket = ''b'', Endpoint = ''e'', AccessID = '''', AccessKey = ''k''\<rparr>"]
  by simp

text \<open>
  C9, as stated, fails: an error of the transport whose text happens to contain
  \<^verbatim>\<open>StatusCode=404\<close> (here in the name of the object that was asked for) is classified
  as not-found.
\<close>

theorem IsObjNotFoundErr_accepts_transport_error:
  "IsObjNotFoundErr
     (Some (External Transport
        ''Get http://bkt.oss.example.com/logs/StatusCode=404: dial tcp: i/o timeout''))
   = Returned True"
  by (simp add: IsObjNotFoundErr_def)

text \<open>
  C9, amended. For every error value other than \<^verbatim>\<open>nil\<close>, \<^verbatim>\<open>IsObjNotFoundErr\<close> returns
  true exactly when the text of the error contains \<^verbatim>\<open>StatusCode=404\<close>; the condition
  that caused the error plays no part.
\<close>

theorem IsObjNotFoundErr_looks_at_text_only:
  "IsObjNotFoundErr (Some e) = Returned (\<exists>pre post. Error e = pre @ ''StatusCode=404'' @ post)
   \<and> IsObjNotFoundErr (Some (External c text)) = IsObjNotFoundErr (Some (External c' text))"
  by (simp add: IsObjNotFoundErr_def Contains_iff)

text \<open>
  C10. With an empty object name, \<^verbatim>\<open>Get\<close> and \<^verbatim>\<open>GetRange\<close> (for every offset and
  length) return an error, make no call and leave the backend's state as it was.
\<close>

theorem empty_name_rejected_before_backend:
  "Get getObject '''' bk = (Inl (errors_New ''given object name should not empty''), bk, [])
   \<and> GetRange getObject '''' off len bk
       = (Inl (errors_New ''given object name should not empty''), bk, [])"
  by (simp add: Get_def GetRange_def getRange_def)

end
